theory Spec2Isabelle
  imports Main
begin

section \<open>JavaScript values\<close>

text \<open>
  The Numbers of \<^verbatim>\<open>childprocess.js\<close> are non-negative integers held in IEEE-754
  doubles: the literals \<^verbatim>\<open>0\<close>, \<^verbatim>\<open>1e9\<close>, \<^verbatim>\<open>23\<close>, the loop variable, the running sum
  and the counter. A Number is modelled by the integer it holds. Every integer below
  \<open>2 ^ 53\<close> is a double; a larger one is a double when it fits in 53 significant bits.
  \<open>round_double\<close> is the rounding of an exact integer result to the nearest double,
  ties to the even significand, and \<open>js_add\<close> is the \<^verbatim>\<open>+\<close> of two such Numbers
  (all values of this program stay far below the overflow threshold \<open>2 ^ 1024\<close>).
\<close>

fun bit_length :: "nat \<Rightarrow> nat" where
  "bit_length n = (if n = 0 then 0 else Suc (bit_length (n div 2)))"

declare bit_length.simps [simp del]

definition round_double :: "nat \<Rightarrow> nat" where
  "round_double x =
     (if x < 2 ^ 53 then x
      else let e = bit_length x - 53;
               q = x div 2 ^ e;
               r = x mod 2 ^ e;
               half = 2 ^ (e - 1)
           in if r < half then q * 2 ^ e
              else if half < r then (q + 1) * 2 ^ e
              else if even q then q * 2 ^ e
              else (q + 1) * 2 ^ e)"

definition js_add :: "nat \<Rightarrow> nat \<Rightarrow> nat" where
  "js_add a b = round_double (a + b)"

text \<open>
  The structured values that travel over the channel: \<^verbatim>\<open>{ hello: 'world' }\<close>,
  \<^verbatim>\<open>{ counter: n }\<close>, \<^verbatim>\<open>'start'\<close>, a Number.
\<close>

datatype jsval =
    JUndefined
  | JNull
  | JNum nat
  | JStr string
  | JObj "(string \<times> jsval) list"

section \<open>compute.js\<close>

text \<open>
  \<^verbatim>\<open>
  const longComputation = () => {
    let sum = 0;
    for (let i = 0; i < 1e9; i++) {
      sum += i;
    };
    return sum;
  };

  process.on('message', (msg) => {
    const sum = longComputation();
    process.send(sum);
  });
  \<close>
  The loop is the recursion \<open>longComputation_for i s\<close> on the two variables
  (\<open>s\<close> is the source's \<^verbatim>\<open>sum\<close>); the handler returns the list of values it passes to
  \<^verbatim>\<open>process.send\<close>. \<open>iterations\<close> is the literal \<^verbatim>\<open>1e9\<close>; below it \<^verbatim>\<open>i++\<close> is
  exact, which is what makes the loop end.
\<close>

definition iterations :: nat where
  "iterations = 1000000000"

function longComputation_for :: "nat \<Rightarrow> nat \<Rightarrow> nat" where
  "longComputation_for i s =
     (if i < iterations then longComputation_for (js_add i 1) (js_add s i) else s)"
  by pat_completeness auto
termination
proof (relation "measure (\<lambda>(i, s). iterations - i)")
  show "wf (measure (\<lambda>(i, s). iterations - i))"
    by simp
next
  fix i s :: nat
  assume lt: "i < iterations"
  then have "i + 1 < 2 ^ 53"
    by (simp add: iterations_def)
  then have "js_add i 1 = i + 1"
    by (simp add: js_add_def round_double_def)
  then show "((js_add i 1, js_add s i), (i, s)) \<in> measure (\<lambda>(i, s). iterations - i)"
    using lt by simp
qed

declare longComputation_for.simps [simp del]

definition longComputation :: nat where
  "longComputation = longComputation_for 0 0"

definition compute_on_message :: "jsval \<Rightarrow> jsval list" where
  "compute_on_message msg = (let s = longComputation in [JNum s])"

section \<open>child.js\<close>

text \<open>
  \<^verbatim>\<open>
  let counter = 0;

  setInterval(() => {
    process.send({ counter: counter++ });
  }, 4000);
  \<close>
  The state of the child is its counter and the messages it has passed to
  \<^verbatim>\<open>process.send\<close>, oldest first. \<open>interval_callback\<close> is one run of the timer's
  callback: \<^verbatim>\<open>counter++\<close> yields the old value and stores \<^verbatim>\<open>counter + 1\<close>, a Number
  addition. \<open>after_intervals n\<close> is the child after the timer has fired \<open>n\<close> times.
  (The child's own \<^verbatim>\<open>'message'\<close> listener only logs what the parent sent.)
\<close>

record child_js =
  counter :: nat
  process_sent :: "jsval list"

definition child_js_start :: child_js where
  "child_js_start = \<lparr>counter = 0, process_sent = []\<rparr>"

definition interval_callback :: "child_js \<Rightarrow> child_js" where
  "interval_callback c =
     c\<lparr>process_sent := process_sent c @ [JObj [(''counter'', JNum (counter c))]],
       counter := js_add (counter c) 1\<rparr>"

definition after_intervals :: "nat \<Rightarrow> child_js" where
  "after_intervals n = (interval_callback ^^ n) child_js_start"

section \<open>The server that forks compute.js\<close>

text \<open>
  \<^verbatim>\<open>
  server.on('request', (req, res) => {
    if (req.url === '/compute') {
      const compute = fork('compute.js');
      compute.send('start');
      compute.on('message', sum => {
        res.end(`Sum is ${sum}`);
      });
    } else {
      res.end('Ok')
    }
  });
  \<close>
  The state of the parent process has three parts.

  \<open>children\<close> are the \<^verbatim>\<open>ChildProcess\<close> objects the runtime holds for the parent, in the
  order they were forked (the position of a child in the list is its identity). The
  program itself keeps none of them: \<^verbatim>\<open>compute\<close> is a constant of the handler's block. A
  child object holds the module it runs, the messages handed to its \<^verbatim>\<open>send\<close>, its event
  listeners by event name, and \<^verbatim>\<open>exitCode\<close> and \<^verbatim>\<open>signalCode\<close>, both \<^verbatim>\<open>null\<close> while the
  process runs.

  \<open>ended\<close> is what the callers have received: the response objects that have ended,
  each with the body it ended with, oldest first. A response object \<open>res\<close> is known by
  its identity. A response ends once: \<^verbatim>\<open>res.end\<close> with a body on a response that has
  ended delivers nothing and raises the error \<^verbatim>\<open>write after end\<close> on the response. The
  program registers no \<^verbatim>\<open>'error'\<close> listener, so that error is an uncaught exception
  and the parent process dies of it: \<open>uncaught\<close> holds the error, and once it is set
  \<open>server_step\<close> handles nothing any more.

  The only listener of the program is the arrow function
  \<^verbatim>\<open>sum => { res.end(`Sum is ${sum}`) }\<close>, a closure over \<open>res\<close>: \<open>Sum_listener res\<close>. The
  template literal is kept as \<open>Sum_is\<close> applied to the interpolated value.

  \<open>emit\<close> is the event emitter: it calls, in registration order, the listeners
  registered for the event's name, and does nothing when there is none. The runtime
  drives the parent with events: a request arrives, a child's message arrives
  (\<^verbatim>\<open>'message'\<close> with the message), a child terminates (its \<^verbatim>\<open>exitCode\<close> and
  \<^verbatim>\<open>signalCode\<close> are set, then \<^verbatim>\<open>'exit'\<close> is emitted with both, each \<^verbatim>\<open>null\<close> when absent).
  \<open>run\<close> takes the events in the order they arrive.
\<close>

type_synonym res = nat

datatype body = Sum_is jsval | Ok

datatype listener = Sum_listener res

datatype error = Write_after_end

record child_process =
  module_path :: string
  sent :: "jsval list"
  listeners :: "(string \<times> listener) list"
  exit_code :: "nat option"
  signal_code :: "string option"

record server =
  children :: "child_process list"
  ended :: "(res \<times> body) list"
  uncaught :: "error option"

definition server_start :: server where
  "server_start = \<lparr>children = [], ended = [], uncaught = None\<rparr>"

definition fork :: "string \<Rightarrow> server \<Rightarrow> nat \<times> server" where
  "fork path s =
     (length (children s),
      s\<lparr>children := children s
           @ [\<lparr>module_path = path, sent = [], listeners = [],
               exit_code = None, signal_code = None\<rparr>]\<rparr>)"

definition child_send :: "nat \<Rightarrow> jsval \<Rightarrow> server \<Rightarrow> server" where
  "child_send c msg s =
     (if c < length (children s)
      then s\<lparr>children := (children s)[c := (children s ! c)\<lparr>sent := sent (children s ! c) @ [msg]\<rparr>]\<rparr>
      else s)"

definition child_on :: "nat \<Rightarrow> string \<Rightarrow> listener \<Rightarrow> server \<Rightarrow> server" where
  "child_on c name l s =
     (if c < length (children s)
      then s\<lparr>children :=
             (children s)[c := (children s ! c)\<lparr>listeners := listeners (children s ! c) @ [(name, l)]\<rparr>]\<rparr>
      else s)"

definition res_end :: "res \<Rightarrow> body \<Rightarrow> server \<Rightarrow> server" where
  "res_end r b s =
     (if r \<in> set (map fst (ended s))
      then s\<lparr>uncaught := Some Write_after_end\<rparr>
      else s\<lparr>ended := ended s @ [(r, b)]\<rparr>)"

fun call_listener :: "listener \<Rightarrow> jsval list \<Rightarrow> server \<Rightarrow> server" where
  "call_listener (Sum_listener r) [] s = res_end r (Sum_is JUndefined) s"
| "call_listener (Sum_listener r) (v # _) s = res_end r (Sum_is v) s"

definition emit :: "nat \<Rightarrow> string \<Rightarrow> jsval list \<Rightarrow> server \<Rightarrow> server" where
  "emit c name args s =
     (if c < length (children s)
      then fold (\<lambda>(n, l) s'. if n = name then call_listener l args s' else s')
             (listeners (children s ! c)) s
      else s)"

definition on_request :: "string \<Rightarrow> res \<Rightarrow> server \<Rightarrow> server" where
  "on_request url r s =
     (if url = ''/compute''
      then let (compute, s1) = fork ''compute.js'' s;
               s2 = child_send compute (JStr ''start'') s1
           in child_on compute ''message'' (Sum_listener r) s2
      else res_end r Ok s)"

definition child_exited :: "nat \<Rightarrow> nat option \<Rightarrow> string option \<Rightarrow> server \<Rightarrow> server" where
  "child_exited c code signal s =
     (if c < length (children s)
      then s\<lparr>children :=
             (children s)[c := (children s ! c)\<lparr>exit_code := code, signal_code := signal\<rparr>]\<rparr>
      else s)"

datatype event =
    Request string res
  | Child_message nat jsval
  | Child_exit nat "nat option" "string option"

fun or_null :: "('a \<Rightarrow> jsval) \<Rightarrow> 'a option \<Rightarrow> jsval" where
  "or_null f None = JNull"
| "or_null f (Some x) = f x"

fun handle :: "event \<Rightarrow> server \<Rightarrow> server" where
  "handle (Request url r) s = on_request url r s"
| "handle (Child_message c msg) s = emit c ''message'' [msg, JUndefined] s"
| "handle (Child_exit c code signal) s =
     emit c ''exit'' [or_null JNum code, or_null JStr signal] (child_exited c code signal s)"

definition server_step :: "event \<Rightarrow> server \<Rightarrow> server" where
  "server_step e s = (if uncaught s = None then handle e s else s)"

definition run :: "event list \<Rightarrow> server \<Rightarrow> server" where
  "run evs s = fold server_step evs s"

section \<open>Sessions\<close>

text \<open>
  A session is one \<^verbatim>\<open>/compute\<close> request together with the child forked for it.
  \<open>outcomes r s\<close> is what the caller of the response \<open>r\<close> has received. \<open>requests evs\<close>
  lists the response objects of the requests among \<open>evs\<close>, and \<open>compute_requests evs\<close>
  those of the \<^verbatim>\<open>/compute\<close> requests, in order: the \<open>c\<close>-th of them is the request child
  \<open>c\<close> is forked for. \<open>session_of r\<close> is the child object as the handler of request \<open>r\<close>
  leaves it. \<open>attempt rs e\<close> is the call of \<^verbatim>\<open>res.end\<close> that handling \<open>e\<close> makes when
  the children serve the requests \<open>rs\<close>.

  \<open>replies worker c s\<close> are the messages that arrive from child \<open>c\<close> when it runs
  \<open>worker\<close> on each message the parent has sent it; \<open>worker_replies\<close> is that for
  compute.js. \<open>compute_round_trip r\<close> is one whole session with compute.js as the
  worker, and \<open>two_sessions r1 r2\<close> is the parent with two requests accepted and no
  result yet.
\<close>

definition outcomes :: "res \<Rightarrow> server \<Rightarrow> body list" where
  "outcomes r s = map snd (filter (\<lambda>(r', b). r' = r) (ended s))"

fun requests :: "event list \<Rightarrow> res list" where
  "requests [] = []"
| "requests (Request url r # evs) = r # requests evs"
| "requests (Child_message c msg # evs) = requests evs"
| "requests (Child_exit c code signal # evs) = requests evs"

fun compute_requests :: "event list \<Rightarrow> res list" where
  "compute_requests [] = []"
| "compute_requests (Request url r # evs) =
     (if url = ''/compute'' then r # compute_requests evs else compute_requests evs)"
| "compute_requests (Child_message c msg # evs) = compute_requests evs"
| "compute_requests (Child_exit c code signal # evs) = compute_requests evs"

definition session_of :: "res \<Rightarrow> child_process" where
  "session_of r =
     \<lparr>module_path = ''compute.js'', sent = [JStr ''start''],
      listeners = [(''message'', Sum_listener r)],
      exit_code = None, signal_code = None\<rparr>"

definition worker_replies :: "nat \<Rightarrow> server \<Rightarrow> event list" where
  "worker_replies c s =
     map (Child_message c) (concat (map compute_on_message (sent (children s ! c))))"

definition compute_round_trip :: "res \<Rightarrow> server" where
  "compute_round_trip r =
     (let s = run [Request ''/compute'' r] server_start in run (worker_replies 0 s) s)"


fun attempt :: "res list \<Rightarrow> event \<Rightarrow> (res \<times> body) option" where
  "attempt rs (Request url r) = (if url = ''/compute'' then None else Some (r, Ok))"
| "attempt rs (Child_message c msg) = (if c < length rs then Some (rs ! c, Sum_is msg) else None)"
| "attempt rs (Child_exit c code signal) = None"


lemmas server_defs = run_def server_step_def server_start_def on_request_def fork_def
  child_send_def child_on_def emit_def res_end_def child_exited_def outcomes_def

section \<open>The channel of a ProcessHandle\<close>

text \<open>
  The messages a worker sends with \<^verbatim>\<open>process.send\<close> reach the listener the parent
  registered with \<^verbatim>\<open>forked.on('message', ...)\<close> (lines 293-297 and 305-310) through the
  channel that \<^verbatim>\<open>fork\<close> sets up between the two processes. The repository has no code
  for that channel: the Node.js runtime carries the messages. It is taken here from the
  specification: one channel per ProcessHandle, bidirectional and ordered (6);
  \<^verbatim>\<open>send\<close> enqueues a message on the channel and does not wait for its delivery, and
  the \<^verbatim>\<open>onMessage\<close> listener is invoked once per inbound message, in the order received
  (4.1); nothing orders the messages of different handles (5).
\<close>








section \<open>Number arithmetic\<close>

text \<open>Up to \<open>2 ^ 53\<close> addition is exact; \<^verbatim>\<open>2 ** 53 + 1\<close> is \<^verbatim>\<open>2 ** 53\<close> again.\<close>

lemma js_add_exact: "a + b < 2 ^ 53 \<Longrightarrow> js_add a b = a + b"
  by (simp add: js_add_def round_double_def)

lemma round_double_2_53: "round_double (2 ^ 53) = 2 ^ 53"
  by (simp add: round_double_def bit_length.simps)

lemma js_add_exact_le: "a + b \<le> 2 ^ 53 \<Longrightarrow> js_add a b = a + b"
proof (cases "a + b < 2 ^ 53")
  case True
  then show ?thesis by (rule js_add_exact)
next
  case False
  assume "a + b \<le> 2 ^ 53"
  with False have "a + b = 2 ^ 53" by simp
  then show ?thesis using round_double_2_53 by (simp add: js_add_def)
qed

lemma bit_length_2_53_1: "bit_length 9007199254740993 = 54"
  by (simp add: bit_length.simps)

lemma js_add_saturates: "js_add (2 ^ 53) 1 = 2 ^ 53"
  by (simp add: js_add_def round_double_def bit_length_2_53_1)

text \<open>While the running sum stays below \<open>2 ^ 53\<close> it is the triangular number.\<close>

lemma triangle_Suc: "Suc n * (Suc n - 1) div 2 = n * (n - 1) div 2 + n"
  by (induction n) simp_all

lemma foldl_js_add_exact:
  "n * (n - 1) div 2 < 2 ^ 53 \<Longrightarrow> foldl js_add 0 [0..<n] = n * (n - 1) div 2"
proof (induction n)
  case 0
  show ?case by simp
next
  case (Suc n)
  have small: "n * (n - 1) div 2 + n < 2 ^ 53"
    using Suc.prems by (simp only: triangle_Suc)
  then have "n * (n - 1) div 2 < 2 ^ 53"
    by linarith
  then have "foldl js_add 0 [0..<n] = n * (n - 1) div 2"
    by (rule Suc.IH)
  then have "foldl js_add 0 [0..<Suc n] = js_add (n * (n - 1) div 2) n"
    by simp
  also have "\<dots> = n * (n - 1) div 2 + n"
    using small by (rule js_add_exact)
  finally show ?case
    by (simp only: triangle_Suc)
qed

text \<open>\<open>bit_length x\<close> is the number of binary digits of \<open>x\<close>.\<close>

lemma bit_length_upper: "x < 2 ^ bit_length x"
proof (induction x rule: bit_length.induct)
  case (1 n)
  show ?case
  proof (cases "n = 0")
    case True
    then show ?thesis by (simp add: bit_length.simps [of n])
  next
    case False
    then have "n div 2 < 2 ^ bit_length (n div 2)"
      using 1 by simp
    then have "n < 2 * 2 ^ bit_length (n div 2)"
      by linarith
    then show ?thesis
      using False by (simp add: bit_length.simps [of n])
  qed
qed

lemma bit_length_lower: "0 < x \<Longrightarrow> 2 ^ (bit_length x - 1) \<le> x"
proof (induction x rule: bit_length.induct)
  case (1 n)
  then have n: "n \<noteq> 0" by simp
  show ?case
  proof (cases "n div 2 = 0")
    case True
    then show ?thesis
      using n by (simp add: bit_length.simps [of n] bit_length.simps [of 0])
  next
    case False
    then have ih: "2 ^ (bit_length (n div 2) - 1) \<le> n div 2"
      using 1 n by simp
    have pos: "0 < bit_length (n div 2)"
      using False by (simp add: bit_length.simps [of "n div 2"])
    have "(2::nat) ^ bit_length (n div 2) = 2 * 2 ^ (bit_length (n div 2) - 1)"
      using pos by (cases "bit_length (n div 2)") simp_all
    also have "\<dots> \<le> 2 * (n div 2)"
      using ih by simp
    also have "\<dots> \<le> n"
      by simp
    finally show ?thesis
      using n by (simp add: bit_length.simps [of n])
  qed
qed

lemma bit_length_eq:
  assumes "2 ^ n \<le> x" and "x < 2 ^ Suc n"
  shows "bit_length x = Suc n"
proof -
  have pos: "0 < x"
    using assms(1) by (simp add: less_le_trans [of 0 "2 ^ n"])
  have "(2::nat) ^ n < 2 ^ bit_length x"
    using assms(1) bit_length_upper [of x] by (rule le_less_trans)
  then have lo: "n < bit_length x"
    using power_less_imp_less_exp [of 2 n "bit_length x"] by simp
  have "(2::nat) ^ (bit_length x - 1) < 2 ^ Suc n"
    using bit_length_lower [OF pos] assms(2) by (rule le_less_trans)
  then have "bit_length x - 1 < Suc n"
    using power_less_imp_less_exp [of 2 "bit_length x - 1" "Suc n"] by simp
  with lo show ?thesis
    by simp
qed

text \<open>
  In the binade \<open>[2 ^ (52 + e), 2 ^ (53 + e))\<close> the doubles are the multiples of
  \<open>U = 2 ^ e\<close>, and rounding looks at the remainder modulo \<open>U\<close> only, against the half
  \<open>H = 2 ^ (e - 1)\<close>. When the sum is the multiple \<open>w * U\<close> and \<open>i = m * U + b\<close>, adding \<open>i\<close>
  adds \<open>m * U\<close> or \<open>(m + 1) * U\<close>.
\<close>

lemma round_double_binade:
  assumes "0 < e" and "2 ^ (52 + e) \<le> x" and "x < 2 ^ (53 + e)"
  shows "round_double x =
     (if x mod 2 ^ e < 2 ^ (e - 1) then x div 2 ^ e * 2 ^ e
      else if 2 ^ (e - 1) < x mod 2 ^ e then (x div 2 ^ e + 1) * 2 ^ e
      else if even (x div 2 ^ e) then x div 2 ^ e * 2 ^ e
      else (x div 2 ^ e + 1) * 2 ^ e)"
proof -
  have "bit_length x = Suc (52 + e)"
    using assms(2,3) by (intro bit_length_eq) simp_all
  then have e: "bit_length x - 53 = e"
    by simp
  have "(2::nat) ^ 53 \<le> 2 ^ (52 + e)"
    using assms(1) by (intro power_increasing) simp_all
  then have "\<not> x < 2 ^ 53"
    using assms(2) by simp
  then show ?thesis
    unfolding round_double_def Let_def e by (simp del: power_numeral)
qed

lemma js_add_in_block:
  fixes U H w m b :: nat
  assumes e: "0 < e" and U: "U = 2 ^ e" and H: "H = 2 ^ (e - 1)"
    and lo: "2 ^ (52 + e) \<le> w * U"
    and hi: "(w + m + 1) * U \<le> 2 ^ (53 + e)"
    and b: "b < U"
  shows "js_add (w * U) (m * U + b) =
     (if b < H then (w + m) * U
      else if H < b then (w + m + 1) * U
      else if even (w + m) then (w + m) * U
      else (w + m + 1) * U)"
proof -
  let ?x = "w * U + (m * U + b)"
  have x: "?x = b + (w + m) * U"
    by (simp add: algebra_simps)
  have Upos: "0 < U"
    by (simp add: U)
  have d: "?x div U = w + m"
    unfolding x using b by simp
  have r: "?x mod U = b"
    unfolding x using b by simp
  have "2 ^ (52 + e) \<le> ?x"
    using lo by simp
  moreover have "?x < 2 ^ (53 + e)"
  proof -
    have "?x < (w + m + 1) * U"
      unfolding x using b by (simp add: algebra_simps)
    with hi show ?thesis by simp
  qed
  ultimately have "round_double ?x =
     (if ?x mod 2 ^ e < 2 ^ (e - 1) then ?x div 2 ^ e * 2 ^ e
      else if 2 ^ (e - 1) < ?x mod 2 ^ e then (?x div 2 ^ e + 1) * 2 ^ e
      else if even (?x div 2 ^ e) then ?x div 2 ^ e * 2 ^ e
      else (?x div 2 ^ e + 1) * 2 ^ e)"
    using e by (intro round_double_binade)
  then show ?thesis
    unfolding js_add_def U [symmetric] H [symmetric] d r by simp
qed

text \<open>
  One block is the \<open>U\<close> additions of \<open>i = m * U, \<dots>, m * U + U - 1\<close>. If
  \<open>w + (H + 1) * m\<close> is even when the block starts, the tie at \<open>b = H\<close> finds an even
  quotient and rounds down; so the offsets up to \<open>H\<close> add \<open>m * U\<close> each and the
  \<open>H - 1\<close> offsets above \<open>H\<close> add \<open>(m + 1) * U\<close> each. The parity condition holds again at
  the start of the next block, which gives the sum over any number of blocks as long as
  the binade is not left.
\<close>

lemma foldl_js_add_block:
  fixes U H w m b :: nat
  assumes e: "0 < e" and U: "U = 2 ^ e" and H: "H = 2 ^ (e - 1)"
    and par: "even (w + (H + 1) * m)"
    and lo: "2 ^ (52 + e) \<le> w * U"
    and hi: "(w + (U * m + H - 1) + m + 1) * U \<le> 2 ^ (53 + e)"
  shows "b \<le> U \<Longrightarrow>
     foldl js_add (w * U) [m * U..<m * U + b] = (w + (b * m + (b - Suc H))) * U"
proof (induction b)
  case 0
  show ?case by simp
next
  case (Suc b)
  then have b: "b < U" by simp
  have UH: "U = 2 * H"
    using e by (cases e) (simp_all add: U H)
  have Hpos: "0 < H"
    by (simp add: H)
  let ?w = "w + (b * m + (b - Suc H))"
  have ih: "foldl js_add (w * U) [m * U..<m * U + b] = ?w * U"
    using Suc by simp
  have lo': "2 ^ (52 + e) \<le> ?w * U"
  proof -
    have "w * U \<le> ?w * U" by simp
    with lo show ?thesis by (rule le_trans)
  qed
  have g: "b * m + (b - Suc H) \<le> U * m + H - 1"
  proof -
    have "b * m \<le> U * m" using b by simp
    moreover have "b - Suc H \<le> H - 1" using b UH by simp
    ultimately show ?thesis using Hpos by linarith
  qed
  have hi': "(?w + m + 1) * U \<le> 2 ^ (53 + e)"
  proof -
    have "?w + m + 1 \<le> w + (U * m + H - 1) + m + 1"
      using g by simp
    then have "(?w + m + 1) * U \<le> (w + (U * m + H - 1) + m + 1) * U"
      by (rule mult_le_mono1)
    then show ?thesis using hi by (rule le_trans)
  qed
  have step: "js_add (?w * U) (m * U + b) =
     (if b < H then (?w + m) * U
      else if H < b then (?w + m + 1) * U
      else if even (?w + m) then (?w + m) * U
      else (?w + m + 1) * U)"
    using e U H lo' hi' b by (rule js_add_in_block)
  have "foldl js_add (w * U) [m * U..<m * U + Suc b] = js_add (?w * U) (m * U + b)"
    using ih by simp
  also have "\<dots> = (w + (Suc b * m + (Suc b - Suc H))) * U"
  proof -
    consider (below) "b < H" | (tie) "b = H" | (above) "H < b"
      by linarith
    then show ?thesis
    proof cases
      case below
      then show ?thesis
        unfolding step by (simp add: algebra_simps)
    next
      case tie
      then have "even (?w + m)"
        using par by (simp add: algebra_simps)
      then show ?thesis
        unfolding step using tie by (simp add: algebra_simps)
    next
      case above
      then have "Suc b - Suc H = Suc (b - Suc H)"
        by simp
      then show ?thesis
        unfolding step using above by (simp add: algebra_simps)
    qed
  qed
  finally show ?case .
qed

lemma foldl_js_add_blocks:
  fixes U H w m k :: nat
  assumes e: "0 < e" and U: "U = 2 ^ e" and H: "H = 2 ^ (e - 1)"
    and par: "even (w + (H + 1) * m)"
    and lo: "2 ^ (52 + e) \<le> w * U"
  shows "(w + (U * (k * m + k * (k - 1) div 2) + k * (H - 1)) + (m + k)) * U \<le> 2 ^ (53 + e) \<Longrightarrow>
     foldl js_add (w * U) [m * U..<(m + k) * U]
       = (w + (U * (k * m + k * (k - 1) div 2) + k * (H - 1))) * U
     \<and> even (w + (U * (k * m + k * (k - 1) div 2) + k * (H - 1)) + (H + 1) * (m + k))"
proof -
  define G where "G = (\<lambda>k. U * (k * m + k * (k - 1) div 2) + k * (H - 1))"
  have UH: "U = 2 * H"
    using e by (cases e) (simp_all add: U H)
  have "0 < H"
    by (simp add: H)
  then obtain h where h: "H = Suc h"
    by (cases H) simp_all
  have G0: "G 0 = 0"
    by (simp add: G_def)
  have GS: "G (Suc k) = G k + (U * (m + k) + h)" for k
    unfolding G_def triangle_Suc h by (simp add: algebra_simps)
  have "(w + G k + (m + k)) * U \<le> 2 ^ (53 + e) \<Longrightarrow>
     foldl js_add (w * U) [m * U..<(m + k) * U] = (w + G k) * U
     \<and> even (w + G k + (H + 1) * (m + k))"
  proof (induction k)
    case 0
    show ?case using par by (simp add: G0)
  next
    case (Suc k)
    have "(w + G k + (m + k)) * U \<le> (w + G (Suc k) + (m + Suc k)) * U"
      unfolding GS by (intro mult_le_mono1) simp
    then have "(w + G k + (m + k)) * U \<le> 2 ^ (53 + e)"
      using Suc.prems by (rule le_trans)
    then have ih: "foldl js_add (w * U) [m * U..<(m + k) * U] = (w + G k) * U"
      and par': "even (w + G k + (H + 1) * (m + k))"
      using Suc.IH by simp_all
    have lo': "2 ^ (52 + e) \<le> (w + G k) * U"
    proof -
      have "w * U \<le> (w + G k) * U" by simp
      with lo show ?thesis by (rule le_trans)
    qed
    have eq: "w + G k + (U * (m + k) + H - 1) + (m + k) + 1 = w + G (Suc k) + (m + Suc k)"
      unfolding GS by (simp add: h)
    have hi': "(w + G k + (U * (m + k) + H - 1) + (m + k) + 1) * U \<le> 2 ^ (53 + e)"
      unfolding eq by (rule Suc.prems)
    have block: "foldl js_add ((w + G k) * U) [(m + k) * U..<(m + k) * U + U]
        = (w + G k + (U * (m + k) + (U - Suc H))) * U"
      using foldl_js_add_block [OF e U H par' lo' hi', of U] by simp
    have "U - Suc H = h"
      using UH h by simp
    then have block': "foldl js_add ((w + G k) * U) [(m + k) * U..<(m + k) * U + U]
        = (w + G (Suc k)) * U"
      unfolding GS block by (simp add: algebra_simps)
    have "[m * U..<(m + Suc k) * U] = [m * U..<(m + k) * U] @ [(m + k) * U..<(m + k) * U + U]"
      using upt_add_eq_append [of "m * U" "(m + k) * U" U] by (simp add: algebra_simps)
    then have "foldl js_add (w * U) [m * U..<(m + Suc k) * U] = (w + G (Suc k)) * U"
      using ih block' by simp
    moreover have "even (w + G (Suc k) + (H + 1) * (m + Suc k))"
    proof -
      have split: "w + G (Suc k) + (H + 1) * (m + Suc k)
          = (w + G k + (H + 1) * (m + k)) + (U * (m + k) + 2 * H)"
        unfolding GS by (simp add: h algebra_simps)
      have "even (U * (m + k) + 2 * H)"
        unfolding UH by simp
      with par' have "even ((w + G k + (H + 1) * (m + k)) + (U * (m + k) + 2 * H))"
        by (rule dvd_add)
      then show ?thesis
        unfolding split .
    qed
    ultimately show ?case by simp
  qed
  then show "(w + (U * (k * m + k * (k - 1) div 2) + k * (H - 1)) + (m + k)) * U \<le> 2 ^ (53 + e) \<Longrightarrow>
     foldl js_add (w * U) [m * U..<(m + k) * U]
       = (w + (U * (k * m + k * (k - 1) div 2) + k * (H - 1))) * U
     \<and> even (w + (U * (k * m + k * (k - 1) div 2) + k * (H - 1)) + (H + 1) * (m + k))"
    unfolding G_def .
qed

lemma foldl_upt_extend:
  assumes "foldl f s [i..<j] = a" and "foldl f a [j..<k] = b" and "i \<le> j" and "j \<le> k"
  shows "foldl f s [i..<k] = b"
proof -
  have "[i..<k] = [i..<j] @ [j..<k]"
    using assms(3,4) upt_add_eq_append [of i j "k - j"] by simp
  then show ?thesis
    using assms(1,2) by simp
qed

section \<open>Properties of compute.js\<close>

lemma iterations_less_2_53: "iterations < 2 ^ 53"
  by (simp add: iterations_def)

lemma longComputation_for_foldl:
  "i \<le> iterations \<Longrightarrow> longComputation_for i s = foldl js_add s [i..<iterations]"
proof (induction i s rule: longComputation_for.induct)
  case (1 i s)
  show ?case
  proof (cases "i < iterations")
    case True
    have "i + 1 < 2 ^ 53"
      using True iterations_less_2_53 by linarith
    then have next_i: "js_add i 1 = Suc i"
      by (simp add: js_add_exact)
    have "longComputation_for i s = longComputation_for (Suc i) (js_add s i)"
      using True next_i by (simp add: longComputation_for.simps [of i s])
    also have "\<dots> = foldl js_add (js_add s i) [Suc i..<iterations]"
      using "1.IH" [OF True] True next_i by simp
    also have "\<dots> = foldl js_add s [i..<iterations]"
      using True by (simp add: upt_conv_Cons)
    finally show ?thesis .
  next
    case False
    then show ?thesis
      by (simp add: longComputation_for.simps [of i s])
  qed
qed

text \<open>
  The value of \<open>longComputation ()\<close>. Up to \<open>i = 134217727\<close> the running sum stays below
  \<open>2 ^ 53\<close> and every addition is exact. From there on the sum passes through the
  binades \<open>[2 ^ 53, 2 ^ 54)\<close>, \<dots>, \<open>[2 ^ 58, 2 ^ 59)\<close>, where the doubles are the
  multiples of \<open>2, 4, \<dots>, 64\<close>. Inside a binade \<open>foldl_js_add_blocks\<close> gives the sum over
  whole blocks of \<open>i\<close>; the few additions around each crossing are evaluated one by one.
\<close>

lemma sum_below_2_53: "foldl js_add 0 [0..<134217728] = 9007199187632128"
  using foldl_js_add_exact [of 134217728] by (simp del: upt_rec_numeral)

lemma crossing_2_53: "foldl js_add 9007199187632128 [134217728..<134217730] = 9007199456067584"
  by (simp add: js_add_def round_double_def bit_length.simps)

lemma binade_2_53: "foldl js_add 9007199456067584 [134217730..<189812530] = 18014398149796784"
  using foldl_js_add_blocks [of 1 2 1 4503599728033792 67108865 27797400] by (simp del: upt_rec_numeral)

lemma crossing_2_54: "foldl js_add 18014398149796784 [189812530..<189812532] = 18014398529421844"
  by (simp add: js_add_def round_double_def bit_length.simps)

lemma binade_2_54: "foldl js_add 18014398529421844 [189812532..<268435452] = 36028795743895564"
  using foldl_js_add_blocks [of 2 4 2 4503599632355461 47453133 19655730] by (simp del: upt_rec_numeral)

lemma crossing_2_55: "foldl js_add 36028795743895564 [268435452..<268435464] = 36028798965121048"
  by (simp add: js_add_def round_double_def bit_length.simps)

lemma binade_2_55: "foldl js_add 36028798965121048 [268435464..<379625056] = 72057591258985376"
  using foldl_js_add_blocks [of 3 8 4 4503599870640131 33554433 13898699] by (simp del: upt_rec_numeral)

lemma crossing_2_56: "foldl js_add 72057591258985376 [379625056..<379625072] = 72057597332986416"
  by (simp add: js_add_def round_double_def bit_length.simps)

lemma binade_2_56: "foldl js_add 72057597332986416 [379625072..<536870896] = 144115179016159408"
  using foldl_js_add_blocks [of 4 16 8 4503599833311651 23726567 9827864] by (simp del: upt_rec_numeral)

lemma crossing_2_57: "foldl js_add 144115179016159408 [536870896..<536870944] = 144115204785963552"
  by (simp add: js_add_def round_double_def bit_length.simps)

lemma binade_2_57: "foldl js_add 144115204785963552 [536870944..<759250112] = 288230365593865088"
  using foldl_js_add_blocks [of 5 32 16 4503600149561361 16777217 6949349] by (simp del: upt_rec_numeral)

lemma crossing_2_58: "foldl js_add 288230365593865088 [759250112..<759250176] = 288230414185874304"
  by (simp add: js_add_def round_double_def bit_length.simps)

lemma binade_2_58: "foldl js_add 288230414185874304 [759250176..<1000000000] = 499999999067108992"
  using foldl_js_add_blocks [of 6 64 32 4503600221654286 11863284 3761716] by (simp del: upt_rec_numeral)

lemma longComputation_value: "longComputation = 499999999067108992"
proof -
  have p0: "foldl js_add 0 [0..<134217730] = 9007199456067584"
    by (rule foldl_upt_extend [OF sum_below_2_53 crossing_2_53]) simp_all
  have p1: "foldl js_add 0 [0..<189812530] = 18014398149796784"
    by (rule foldl_upt_extend [OF p0 binade_2_53]) simp_all
  have p2: "foldl js_add 0 [0..<189812532] = 18014398529421844"
    by (rule foldl_upt_extend [OF p1 crossing_2_54]) simp_all
  have p3: "foldl js_add 0 [0..<268435452] = 36028795743895564"
    by (rule foldl_upt_extend [OF p2 binade_2_54]) simp_all
  have p4: "foldl js_add 0 [0..<268435464] = 36028798965121048"
    by (rule foldl_upt_extend [OF p3 crossing_2_55]) simp_all
  have p5: "foldl js_add 0 [0..<379625056] = 72057591258985376"
    by (rule foldl_upt_extend [OF p4 binade_2_55]) simp_all
  have p6: "foldl js_add 0 [0..<379625072] = 72057597332986416"
    by (rule foldl_upt_extend [OF p5 crossing_2_56]) simp_all
  have p7: "foldl js_add 0 [0..<536870896] = 144115179016159408"
    by (rule foldl_upt_extend [OF p6 binade_2_56]) simp_all
  have p8: "foldl js_add 0 [0..<536870944] = 144115204785963552"
    by (rule foldl_upt_extend [OF p7 crossing_2_57]) simp_all
  have p9: "foldl js_add 0 [0..<759250112] = 288230365593865088"
    by (rule foldl_upt_extend [OF p8 binade_2_57]) simp_all
  have p10: "foldl js_add 0 [0..<759250176] = 288230414185874304"
    by (rule foldl_upt_extend [OF p9 crossing_2_58]) simp_all
  have p11: "foldl js_add 0 [0..<1000000000] = 499999999067108992"
    by (rule foldl_upt_extend [OF p10 binade_2_58]) simp_all
  have "longComputation = foldl js_add 0 [0..<iterations]"
    unfolding longComputation_def by (rule longComputation_for_foldl) simp
  then show ?thesis
    using p11 by (simp add: iterations_def del: upt_rec_numeral)
qed

lemma sum_integers_below: "2 * (\<Sum>i<n. i) = n * (n - 1)" for n :: nat
  by (induction n) (simp_all add: algebra_simps)

text \<open>
  Claim C9, as amended. The compute.js worker sends the same value for every message it
  receives: the handler never reads \<open>msg\<close>; it sends the single value
  \<open>longComputation ()\<close>, the running sum \<^verbatim>\<open>sum += i\<close> over \<open>i = 0, 1, \<dots>, 10 ^ 9 - 1\<close> in
  that order, starting from 0, in Number arithmetic. That value is 499999999067108992.
\<close>

theorem compute_ignores_message:
  "compute_on_message msg = [JNum (foldl js_add 0 [0..<10 ^ 9])]
   \<and> compute_on_message msg = [JNum 499999999067108992]
   \<and> compute_on_message msg = compute_on_message msg'"
proof (intro conjI)
  have "iterations = 10 ^ 9"
    by (simp add: iterations_def)
  moreover have "longComputation = foldl js_add 0 [0..<iterations]"
    unfolding longComputation_def by (rule longComputation_for_foldl) simp
  ultimately show "compute_on_message msg = [JNum (foldl js_add 0 [0..<10 ^ 9])]"
    by (simp add: compute_on_message_def del: upt_rec_numeral)
next
  have sent: "compute_on_message m = [JNum 499999999067108992]" for m
    by (simp add: compute_on_message_def longComputation_value)
  show "compute_on_message msg = [JNum 499999999067108992]"
    by (rule sent)
  show "compute_on_message msg = compute_on_message msg'"
    by (simp only: sent)
qed

text \<open>
  Claim C9 as stated, with the value sent being the sum of the integers from 0 to
  \<open>10 ^ 9 - 1\<close>, fails: that sum is 499999999500000000, and the additions above
  \<open>2 ^ 53\<close> are rounded.
\<close>

theorem compute_sum_is_rounded:
  "compute_on_message (JStr ''start'') \<noteq> [JNum (\<Sum>i<1000000000. i)]"
proof -
  have "2 * (\<Sum>i<1000000000. i) = (2::nat) * 499999999500000000"
    unfolding sum_integers_below by simp
  then have "(\<Sum>i<1000000000. i) = (499999999500000000::nat)"
    by linarith
  then show ?thesis
    by (simp add: compute_on_message_def longComputation_value)
qed

text \<open>
  Claim C2, as amended. A \<^verbatim>\<open>/compute\<close> session sends the worker the fixed message
  \<^verbatim>\<open>'start'\<close> and nothing else; whatever message the worker receives, it sends
  \<open>longComputation ()\<close>, which is 499999999067108992; and the caller's response is
  \<^verbatim>\<open>Sum is\<close> that value. No task payload takes part.
\<close>

theorem compute_result_fixed:
  "sent (children (compute_round_trip r) ! 0) = [JStr ''start'']
   \<and> ended (compute_round_trip r) = [(r, Sum_is (JNum 499999999067108992))]
   \<and> compute_on_message task = [JNum 499999999067108992]"
  by (simp add: compute_round_trip_def worker_replies_def compute_on_message_def
      longComputation_value server_defs)

text \<open>
  Claim C2 as stated fails: on the message \<^verbatim>\<open>{ op: 'sum', to: 1000000 }\<close> the worker does
  not send 500000500000.
\<close>

theorem task_payload_ignored:
  "compute_on_message (JObj [(''op'', JStr ''sum''), (''to'', JNum 1000000)])
     \<noteq> [JNum 500000500000]"
  by (simp add: compute_on_message_def longComputation_value)

section \<open>Properties of child.js\<close>

lemma counter_after_intervals: "counter (after_intervals n) = min n (2 ^ 53)"
proof (induction n)
  case 0
  show ?case by (simp add: after_intervals_def child_js_start_def)
next
  case (Suc n)
  have step: "counter (after_intervals (Suc n)) = js_add (counter (after_intervals n)) 1"
    by (simp add: after_intervals_def interval_callback_def)
  show ?case
  proof (cases "n < 2 ^ 53")
    case True
    then have "js_add n 1 = n + 1"
      by (intro js_add_exact_le) simp
    then show ?thesis using True Suc step by simp
  next
    case False
    then show ?thesis using Suc step js_add_saturates by simp
  qed
qed

lemma process_sent_after_intervals:
  "process_sent (after_intervals n) =
     map (\<lambda>j. JObj [(''counter'', JNum (min j (2 ^ 53)))]) [0..<n]"
proof (induction n)
  case 0
  show ?case by (simp add: after_intervals_def child_js_start_def)
next
  case (Suc n)
  have "process_sent (after_intervals (Suc n)) =
          process_sent (after_intervals n) @ [JObj [(''counter'', JNum (counter (after_intervals n)))]]"
    by (simp add: after_intervals_def interval_callback_def)
  then show ?case using Suc counter_after_intervals [of n] by simp
qed

text \<open>
  Claim C10, as amended. For \<open>1 \<le> k \<le> 2 ^ 53 + 1\<close>, the \<open>k\<close>-th message the child sends
  is \<^verbatim>\<open>{ counter: k - 1 }\<close>: once the timer has fired \<open>n \<ge> k\<close> times, \<open>n\<close> messages have
  been sent and the \<open>k\<close>-th carries \<open>k - 1\<close>.
\<close>

theorem counter_messages_consecutive:
  "1 \<le> k \<Longrightarrow> k \<le> 2 ^ 53 + 1 \<Longrightarrow> k \<le> n \<Longrightarrow>
     length (process_sent (after_intervals n)) = n
     \<and> process_sent (after_intervals n) ! (k - 1) = JObj [(''counter'', JNum (k - 1))]"
proof -
  assume k: "1 \<le> k" "k \<le> 2 ^ 53 + 1" "k \<le> n"
  then have "k - 1 < n" and "k - 1 \<le> 2 ^ 53"
    by simp_all
  then show ?thesis
    by (simp add: process_sent_after_intervals)
qed

theorem counter_messages_consecutive_witness:
  "(1::nat) \<le> 3 \<and> (3::nat) \<le> 2 ^ 53 + 1 \<and> (3::nat) \<le> 4
   \<and> length (process_sent (after_intervals 4)) = 4
   \<and> process_sent (after_intervals 4) ! (3 - 1) = JObj [(''counter'', JNum 2)]"
  using counter_messages_consecutive [of 3 4] by simp

text \<open>
  Claim C10 as stated, for every \<open>k \<ge> 1\<close>, fails at \<open>k = 2 ^ 53 + 2\<close>: the counter is a
  Number, \<open>2 ^ 53 + 1\<close> is not one, and \<^verbatim>\<open>counter++\<close> leaves a counter of \<open>2 ^ 53\<close>
  unchanged, so that message carries \<open>2 ^ 53\<close> again.
\<close>

theorem counter_stops_at_2_53:
  "process_sent (after_intervals (2 ^ 53 + 2)) ! (2 ^ 53 + 2 - 1)
     \<noteq> JObj [(''counter'', JNum (2 ^ 53 + 2 - 1))]"
  by (simp add: process_sent_after_intervals)

section \<open>Properties of the channel\<close>







section \<open>Properties of the server\<close>

text \<open>
  What holds of the parent after any events: child \<open>c\<close> carries the one \<^verbatim>\<open>'message'\<close>
  listener of the \<open>c\<close>-th \<^verbatim>\<open>/compute\<close> request; while the parent lives, every \<^verbatim>\<open>/compute\<close>
  request so far has its child; no response has ended twice; and a response has ended
  only with \<^verbatim>\<open>'Ok'\<close> for a request of another path, or with \<^verbatim>\<open>Sum is v\<close> for a message
  \<open>v\<close> of the child forked for its request.
\<close>

lemma compute_requests_append:
  "compute_requests (evs @ evs') = compute_requests evs @ compute_requests evs'"
  by (induction evs rule: compute_requests.induct) simp_all

lemma requests_append: "requests (evs @ evs') = requests evs @ requests evs'"
  by (induction evs rule: requests.induct) simp_all

lemma run_append: "run (evs @ evs') s = run evs' (run evs s)"
  by (simp add: run_def)

lemma run_snoc: "run (evs @ [e]) s = server_step e (run evs s)"
  by (simp add: run_def)

lemma run_dead: "uncaught s \<noteq> None \<Longrightarrow> run evs s = s"
  by (induction evs) (auto simp: run_def server_step_def)

lemma alive_before:
  assumes "uncaught (run (evs @ evs') s) = None"
  shows "uncaught (run evs s) = None"
proof (rule ccontr)
  assume "uncaught (run evs s) \<noteq> None"
  then have "run (evs @ evs') s = run evs s"
    unfolding run_append by (rule run_dead)
  with assms \<open>uncaught (run evs s) \<noteq> None\<close> show False
    by simp
qed

lemma map_update_same: "f y = f (xs ! c) \<Longrightarrow> map f (xs[c := y]) = map f xs"
  by (induction xs arbitrary: c) (auto split: nat.splits)

lemma handle_children:
  assumes "map listeners (children s) = map (\<lambda>r. [(''message'', Sum_listener r)]) rs"
  shows "map listeners (children (handle e s))
           = map (\<lambda>r. [(''message'', Sum_listener r)]) (rs @ compute_requests [e])"
proof -
  have len: "length (children s) = length rs"
    using arg_cong [OF assms, of length] by simp
  have at: "listeners (children s ! c) = [(''message'', Sum_listener (rs ! c))]" if "c < length rs" for c
    using arg_cong [OF assms, of "\<lambda>xs. xs ! c"] that len by simp
  show ?thesis
  proof (cases e)
    case (Request url r)
    have "map listeners (children (on_request url r s))
        = map listeners (children s) @ (if url = ''/compute'' then [[(''message'', Sum_listener r)]] else [])"
      by (simp add: on_request_def fork_def child_send_def child_on_def res_end_def
          nth_append list_update_append)
    then show ?thesis
      unfolding Request assms by simp
  next
    case (Child_message c msg)
    have "children (emit c ''message'' [msg, JUndefined] s) = children s"
      using at [of c] len by (simp add: emit_def res_end_def)
    then show ?thesis
      unfolding Child_message using assms by simp
  next
    case (Child_exit c code signal)
    have "map listeners (children (child_exited c code signal s)) = map listeners (children s)"
      by (simp add: child_exited_def map_update_same)
    moreover have "children (emit c ''exit'' args (child_exited c code signal s))
        = children (child_exited c code signal s)" for args
      using at [of c] len by (simp add: emit_def child_exited_def)
    ultimately show ?thesis
      unfolding Child_exit using assms by simp
  qed
qed

lemma handle_res_end:
  assumes "map listeners (children s) = map (\<lambda>r. [(''message'', Sum_listener r)]) rs"
  shows "ended (handle e s) = ended (case attempt rs e of None \<Rightarrow> s | Some (r, b) \<Rightarrow> res_end r b s)
     \<and> uncaught (handle e s)
         = uncaught (case attempt rs e of None \<Rightarrow> s | Some (r, b) \<Rightarrow> res_end r b s)"
proof -
  have len: "length (children s) = length rs"
    using arg_cong [OF assms, of length] by simp
  have at: "listeners (children s ! c) = [(''message'', Sum_listener (rs ! c))]" if "c < length rs" for c
    using arg_cong [OF assms, of "\<lambda>xs. xs ! c"] that len by simp
  show ?thesis
  proof (cases e)
    case (Request url r)
    then show ?thesis
      by (simp add: on_request_def fork_def child_send_def child_on_def)
  next
    case (Child_message c msg)
    then show ?thesis
      using at [of c] len by (simp add: emit_def)
  next
    case (Child_exit c code signal)
    then show ?thesis
      using at [of c] len by (simp add: emit_def child_exited_def)
  qed
qed

lemma attempt_origin:
  assumes "attempt rs e = Some (r, b)"
  shows "(b = Ok \<and> (\<exists>url. url \<noteq> ''/compute'' \<and> e = Request url r))
     \<or> (\<exists>c v. b = Sum_is v \<and> c < length rs \<and> rs ! c = r \<and> e = Child_message c v)"
  using assms by (cases e) (auto split: if_splits)

lemma res_end_ended:
  "ended (res_end r b s) = (if r \<in> set (map fst (ended s)) then ended s else ended s @ [(r, b)])"
  by (simp add: res_end_def)

lemma res_end_uncaught:
  "uncaught (res_end r b s)
     = (if r \<in> set (map fst (ended s)) then Some Write_after_end else uncaught s)"
  by (simp add: res_end_def)

lemma reach_all:
  "length (children (run evs server_start)) \<le> length (compute_requests evs)
   \<and> map listeners (children (run evs server_start))
       = map (\<lambda>r. [(''message'', Sum_listener r)])
           (take (length (children (run evs server_start))) (compute_requests evs))
   \<and> (uncaught (run evs server_start) = None \<longrightarrow>
        length (children (run evs server_start)) = length (compute_requests evs))
   \<and> distinct (map fst (ended (run evs server_start)))
   \<and> (\<forall>r b. (r, b) \<in> set (ended (run evs server_start)) \<longrightarrow>
        (b = Ok \<and> (\<exists>url. url \<noteq> ''/compute'' \<and> Request url r \<in> set evs))
        \<or> (\<exists>c v. b = Sum_is v \<and> c < length (compute_requests evs)
              \<and> compute_requests evs ! c = r \<and> Child_message c v \<in> set evs))"
proof (induction evs rule: rev_induct)
  case Nil
  show ?case by (simp add: run_def server_start_def)
next
  case (snoc e evs)
  let ?s = "run evs server_start"
  let ?crs = "compute_requests evs"
  let ?s' = "run (evs @ [e]) server_start"
  let ?crs' = "compute_requests (evs @ [e])"
  let ?L = "\<lambda>r. [(''message'', Sum_listener r)]"
  have crs': "?crs' = ?crs @ compute_requests [e]"
    by (rule compute_requests_append)
  from snoc have len: "length (children ?s) \<le> length ?crs"
    and wired: "map listeners (children ?s) = map ?L (take (length (children ?s)) ?crs)"
    and full: "uncaught ?s = None \<Longrightarrow> length (children ?s) = length ?crs"
    and dist: "distinct (map fst (ended ?s))"
    and orig: "\<And>r b. (r, b) \<in> set (ended ?s) \<Longrightarrow>
        (b = Ok \<and> (\<exists>url. url \<noteq> ''/compute'' \<and> Request url r \<in> set evs))
        \<or> (\<exists>c v. b = Sum_is v \<and> c < length ?crs \<and> ?crs ! c = r \<and> Child_message c v \<in> set evs)"
    by blast+
  have orig': "(b = Ok \<and> (\<exists>url. url \<noteq> ''/compute'' \<and> Request url r \<in> set (evs @ [e])))
        \<or> (\<exists>c v. b = Sum_is v \<and> c < length ?crs' \<and> ?crs' ! c = r
              \<and> Child_message c v \<in> set (evs @ [e]))"
    if "(r, b) \<in> set (ended ?s)" for r b
    using orig [OF that] unfolding crs' by (auto simp: nth_append)
  show ?case
  proof (cases "uncaught ?s = None")
    case False
    then have same: "?s' = ?s"
      by (auto simp: run_snoc server_step_def)
    show ?thesis
      unfolding same using len wired False dist orig' by (auto simp: crs')
  next
    case True
    then have n: "length (children ?s) = length ?crs"
      by (rule full)
    then have wired_full: "map listeners (children ?s) = map ?L ?crs"
      using wired by simp
    have step: "?s' = handle e ?s"
      using True by (simp add: run_snoc server_step_def)
    have ch: "map listeners (children ?s') = map ?L ?crs'"
      unfolding step crs' using wired_full by (rule handle_children)
    have n': "length (children ?s') = length ?crs'"
      using arg_cong [OF ch, of length] by simp
    have eff: "ended ?s' = ended (case attempt ?crs e of None \<Rightarrow> ?s | Some (r, b) \<Rightarrow> res_end r b ?s)"
      unfolding step using handle_res_end [OF wired_full, of e] by simp
    have dist': "distinct (map fst (ended ?s'))"
      unfolding eff using dist by (auto simp: res_end_ended split: option.splits)
    have new: "(b = Ok \<and> (\<exists>url. url \<noteq> ''/compute'' \<and> Request url r \<in> set (evs @ [e])))
        \<or> (\<exists>c v. b = Sum_is v \<and> c < length ?crs' \<and> ?crs' ! c = r
              \<and> Child_message c v \<in> set (evs @ [e]))"
      if "(r, b) \<in> set (ended ?s')" for r b
    proof (cases "(r, b) \<in> set (ended ?s)")
      case True
      then show ?thesis by (rule orig')
    next
      case False
      with that have "attempt ?crs e = Some (r, b)"
        unfolding eff by (auto simp: res_end_ended split: option.splits if_splits)
      from attempt_origin [OF this] show ?thesis
        unfolding crs' by (auto simp: nth_append)
    qed
    show ?thesis
      using n' ch dist' new by simp
  qed
qed

lemma reach_wired:
  "map listeners (children (run evs server_start))
     = map (\<lambda>r. [(''message'', Sum_listener r)])
         (take (length (children (run evs server_start))) (compute_requests evs))"
  using reach_all [of evs] by (elim conjE)

lemma reach_full:
  "uncaught (run evs server_start) = None \<Longrightarrow>
     length (children (run evs server_start)) = length (compute_requests evs)"
  using reach_all [of evs] by (elim conjE) simp

lemma reach_distinct: "distinct (map fst (ended (run evs server_start)))"
  using reach_all [of evs] by (elim conjE)

lemma reach_origin:
  assumes "(r, b) \<in> set (ended (run evs server_start))"
  obtains (ok) url where "b = Ok" "url \<noteq> ''/compute''" "Request url r \<in> set evs"
  | (sum) c v where "b = Sum_is v" "c < length (compute_requests evs)"
      "compute_requests evs ! c = r" "Child_message c v \<in> set evs"
proof -
  have "\<forall>r b. (r, b) \<in> set (ended (run evs server_start)) \<longrightarrow>
        (b = Ok \<and> (\<exists>url. url \<noteq> ''/compute'' \<and> Request url r \<in> set evs))
        \<or> (\<exists>c v. b = Sum_is v \<and> c < length (compute_requests evs)
              \<and> compute_requests evs ! c = r \<and> Child_message c v \<in> set evs)"
    using reach_all [of evs] by (elim conjE)
  then have "(b = Ok \<and> (\<exists>url. url \<noteq> ''/compute'' \<and> Request url r \<in> set evs))
        \<or> (\<exists>c v. b = Sum_is v \<and> c < length (compute_requests evs)
              \<and> compute_requests evs ! c = r \<and> Child_message c v \<in> set evs)"
    using assms by blast
  then show thesis
    using ok sum by blast
qed

lemma request_in_requests: "Request url r \<in> set evs \<Longrightarrow> r \<in> set (requests evs)"
  by (induction evs rule: requests.induct) auto

lemma compute_requests_subset: "set (compute_requests evs) \<subseteq> set (requests evs)"
  by (induction evs rule: requests.induct) auto

lemma compute_request_in: "r \<in> set (compute_requests evs) \<Longrightarrow> Request ''/compute'' r \<in> set evs"
  by (induction evs rule: compute_requests.induct) (auto split: if_splits)

lemma distinct_compute_requests: "distinct (requests evs) \<Longrightarrow> distinct (compute_requests evs)"
proof (induction evs rule: requests.induct)
  case (2 url r evs)
  then show ?case
    using compute_requests_subset [of evs] by auto
qed simp_all

lemma request_url_unique:
  "distinct (requests evs) \<Longrightarrow> Request url r \<in> set evs \<Longrightarrow> Request url' r \<in> set evs
     \<Longrightarrow> url = url'"
proof (induction evs rule: requests.induct)
  case (2 u r0 evs)
  then show ?case
    using request_in_requests [of url r evs] request_in_requests [of url' r evs] by auto
qed auto

lemma filter_res_empty: "filter (\<lambda>(r', b). r' = r) xs = [] \<longleftrightarrow> r \<notin> set (map fst xs)"
  by (induction xs) auto

lemma outcomes_none: "outcomes r s = [] \<longleftrightarrow> r \<notin> set (map fst (ended s))"
  by (simp add: outcomes_def filter_res_empty)

lemma at_most_one: "distinct (map fst xs) \<Longrightarrow> length (filter (\<lambda>(r', b). r' = r) xs) \<le> 1"
proof (induction xs)
  case Nil
  show ?case by simp
next
  case (Cons x xs)
  show ?case
  proof (cases "fst x = r")
    case True
    then have "r \<notin> set (map fst xs)"
      using Cons.prems by auto
    then have "filter (\<lambda>(r', b). r' = r) xs = []"
      by (simp add: filter_res_empty)
    then show ?thesis
      by (simp add: case_prod_unfold)
  next
    case False
    then show ?thesis
      using Cons by (simp add: case_prod_unfold)
  qed
qed

lemma ended_grows:
  "ended (run (evs @ [e]) server_start) = ended (run evs server_start)
   \<or> (\<exists>r b. r \<notin> set (map fst (ended (run evs server_start)))
         \<and> ended (run (evs @ [e]) server_start) = ended (run evs server_start) @ [(r, b)])"
proof (cases "uncaught (run evs server_start) = None")
  case False
  then show ?thesis
    by (auto simp: run_snoc server_step_def)
next
  case True
  let ?s = "run evs server_start"
  have "map listeners (children ?s)
      = map (\<lambda>r. [(''message'', Sum_listener r)]) (take (length (children ?s)) (compute_requests evs))"
    by (rule reach_wired)
  from handle_res_end [OF this, of e] show ?thesis
    using True by (auto simp: run_snoc server_step_def res_end_ended split: option.splits)
qed

lemma outcomes_stable:
  "r \<in> set (map fst (ended (run evs server_start))) \<Longrightarrow>
     outcomes r (run (evs @ post) server_start) = outcomes r (run evs server_start)
     \<and> r \<in> set (map fst (ended (run (evs @ post) server_start)))"
proof (induction post rule: rev_induct)
  case Nil
  then show ?case by simp
next
  case (snoc e post)
  let ?u = "run (evs @ post) server_start"
  let ?t = "run (evs @ post @ [e]) server_start"
  from snoc have ih: "outcomes r ?u = outcomes r (run evs server_start)"
    and mem: "r \<in> set (map fst (ended ?u))"
    by simp_all
  have "ended ?t = ended ?u
      \<or> (\<exists>r' b. r' \<notin> set (map fst (ended ?u)) \<and> ended ?t = ended ?u @ [(r', b)])"
    using ended_grows [of "evs @ post" e] by simp
  then have "outcomes r ?t = outcomes r ?u \<and> r \<in> set (map fst (ended ?t))"
  proof
    assume "ended ?t = ended ?u"
    then show ?thesis
      using mem by (simp add: outcomes_def)
  next
    assume "\<exists>r' b. r' \<notin> set (map fst (ended ?u)) \<and> ended ?t = ended ?u @ [(r', b)]"
    then obtain r' b where new: "r' \<notin> set (map fst (ended ?u))"
      and eq: "ended ?t = ended ?u @ [(r', b)]"
      by blast
    from new mem have "r' \<noteq> r"
      by blast
    then show ?thesis
      using mem by (simp add: outcomes_def eq)
  qed
  then show ?case
    using ih by simp
qed

lemma no_message_no_outcome:
  assumes "distinct (requests evs)" and "c < length (compute_requests evs)"
    and "\<forall>v. Child_message c v \<notin> set evs"
  shows "outcomes (compute_requests evs ! c) (run evs server_start) = []"
proof -
  let ?r = "compute_requests evs ! c"
  have compute: "Request ''/compute'' ?r \<in> set evs"
    using assms(2) by (intro compute_request_in) simp
  have "(?r, b) \<notin> set (ended (run evs server_start))" for b
  proof
    assume "(?r, b) \<in> set (ended (run evs server_start))"
    then show False
    proof (cases rule: reach_origin)
      case (ok url)
      then show False
        using request_url_unique [OF assms(1) compute ok(3)] by simp
    next
      case (sum c' v)
      have "c' = c"
        using distinct_compute_requests [OF assms(1)] sum(2,3) assms(2)
        by (simp add: nth_eq_iff_index_eq)
      then show False
        using sum(4) assms(3) by simp
    qed
  qed
  then show ?thesis
    by (auto simp: outcomes_none)
qed

lemma nth_unique_mid:
  assumes "r \<notin> set xs" and "r \<notin> set ys"
    and "i < length (xs @ r # ys)" and "(xs @ r # ys) ! i = r"
  shows "i = length xs"
proof (rule ccontr)
  assume ne: "i \<noteq> length xs"
  show False
  proof (cases "i < length xs")
    case True
    then have "(xs @ r # ys) ! i = xs ! i"
      by (simp add: nth_append)
    then have "r \<in> set xs"
      using assms(4) True by (simp add: nth_mem [of i xs, simplified])
    then show False
      using assms(1) by simp
  next
    case False
    with ne have gt: "length xs < i"
      by simp
    define j where "j = i - Suc (length xs)"
    have i: "i = length xs + Suc j"
      using gt by (simp add: j_def)
    have j: "j < length ys"
      using assms(3) by (simp add: i)
    have "(xs @ r # ys) ! i = ys ! j"
      by (simp add: i nth_append)
    then have "r = ys ! j"
      using assms(4) by simp
    then have "r \<in> set ys"
      using j by simp
    then show False
      using assms(2) by simp
  qed
qed

lemma first_message_outcome:
  assumes alive: "uncaught (run (pre @ Request ''/compute'' r # mid) server_start) = None"
    and fresh: "r \<notin> set (requests (pre @ mid))"
    and first: "\<forall>v'. Child_message (length (compute_requests pre)) v' \<notin> set (pre @ mid)"
  shows "outcomes r (run (pre @ Request ''/compute'' r # mid
            @ Child_message (length (compute_requests pre)) v # post) server_start) = [Sum_is v]"
proof -
  let ?c = "length (compute_requests pre)"
  let ?evs = "pre @ Request ''/compute'' r # mid"
  let ?s = "run ?evs server_start"
  let ?crs = "compute_requests ?evs"
  have crs: "?crs = compute_requests pre @ r # compute_requests mid"
    by (simp add: compute_requests_append)
  then have c: "?c < length ?crs" and rc: "?crs ! ?c = r"
    by simp_all
  have not_pre: "r \<notin> set (compute_requests pre)" and not_mid: "r \<notin> set (compute_requests mid)"
    using fresh compute_requests_subset [of pre] compute_requests_subset [of mid]
    by (auto simp: requests_append)
  have only: "c' = ?c" if "c' < length ?crs" "?crs ! c' = r" for c'
    using not_pre not_mid that unfolding crs by (rule nth_unique_mid)
  have fresh_res: "(r, b) \<notin> set (ended ?s)" for b
  proof
    assume "(r, b) \<in> set (ended ?s)"
    then show False
    proof (cases rule: reach_origin)
      case (ok url)
      then have "Request url r \<in> set (pre @ mid)"
        by auto
      then have "r \<in> set (requests (pre @ mid))"
        by (rule request_in_requests)
      then show False
        using fresh by simp
    next
      case (sum c' v')
      have "c' = ?c"
        using sum(2,3) by (rule only)
      then have "Child_message ?c v' \<in> set (pre @ mid)"
        using sum(4) by auto
      then show False
        using first by simp
    qed
  qed
  then have none: "r \<notin> set (map fst (ended ?s))"
    by auto
  have full: "length (children ?s) = length ?crs"
    using alive by (rule reach_full)
  have wired: "map listeners (children ?s) = map (\<lambda>r. [(''message'', Sum_listener r)]) ?crs"
    using reach_wired [of ?evs] unfolding full by simp
  have att: "attempt ?crs (Child_message ?c v) = Some (r, Sum_is v)"
    using c rc by (simp del: compute_requests.simps)
  have "ended (handle (Child_message ?c v) ?s) = ended (res_end r (Sum_is v) ?s)"
    using handle_res_end [OF wired, of "Child_message ?c v"] unfolding att by simp
  then have eq: "ended (run (?evs @ [Child_message ?c v]) server_start) = ended ?s @ [(r, Sum_is v)]"
    unfolding run_snoc server_step_def using alive none by (simp add: res_end_ended)
  have "filter (\<lambda>(r', b). r' = r) (ended ?s) = []"
    using none by (simp add: filter_res_empty)
  then have now: "outcomes r (run (?evs @ [Child_message ?c v]) server_start) = [Sum_is v]"
    unfolding outcomes_def eq by simp
  have mem: "r \<in> set (map fst (ended (run (?evs @ [Child_message ?c v]) server_start)))"
    unfolding eq by simp
  from outcomes_stable [OF mem, of post] now show ?thesis
    by simp
qed

text \<open>
  Claim C1, as amended. For every \<^verbatim>\<open>/compute\<close> session, in any interleaving with other
  sessions, at most one outcome is ever delivered to the caller, never more than one.
  Only a message of the session's own worker delivers it. When the worker sends none,
  whatever else happens, its exit with code 1 included, the caller is left with zero
  outcomes. When the first message \<open>v\<close> of the worker arrives while the parent runs, the
  caller receives \<^verbatim>\<open>Sum is v\<close>, and that stays its one outcome whatever follows.
\<close>

theorem session_outcomes:
  "length (outcomes r (run evs server_start)) \<le> 1
   \<and> (distinct (requests evs) \<and> c < length (compute_requests evs)
        \<and> (\<forall>v. Child_message c v \<notin> set evs)
      \<longrightarrow> outcomes (compute_requests evs ! c) (run evs server_start) = [])
   \<and> (uncaught (run (pre @ Request ''/compute'' r' # mid) server_start) = None
        \<and> r' \<notin> set (requests (pre @ mid))
        \<and> (\<forall>v'. Child_message (length (compute_requests pre)) v' \<notin> set (pre @ mid))
      \<longrightarrow> outcomes r' (run (pre @ Request ''/compute'' r' # mid
                    @ Child_message (length (compute_requests pre)) v # post) server_start)
            = [Sum_is v])"
proof (intro conjI impI)
  show "length (outcomes r (run evs server_start)) \<le> 1"
    unfolding outcomes_def using at_most_one [OF reach_distinct [of evs], of r] by simp
next
  assume "distinct (requests evs) \<and> c < length (compute_requests evs)
        \<and> (\<forall>v. Child_message c v \<notin> set evs)"
  then show "outcomes (compute_requests evs ! c) (run evs server_start) = []"
    by (intro no_message_no_outcome) simp_all
next
  assume "uncaught (run (pre @ Request ''/compute'' r' # mid) server_start) = None
        \<and> r' \<notin> set (requests (pre @ mid))
        \<and> (\<forall>v'. Child_message (length (compute_requests pre)) v' \<notin> set (pre @ mid))"
  then show "outcomes r' (run (pre @ Request ''/compute'' r' # mid
                    @ Child_message (length (compute_requests pre)) v # post) server_start)
            = [Sum_is v]"
    by (intro first_message_outcome) simp_all
qed

text \<open>
  Two sessions: the worker of the first exits with code 1 without a result and its
  caller gets nothing; the worker of the second sends 20 and then 21, and its caller has
  the one outcome \<^verbatim>\<open>Sum is 20\<close>.
\<close>

theorem session_outcomes_witness:
  "length (outcomes 2 (run [Request ''/compute'' 1, Request ''/compute'' 2,
            Child_exit 0 (Some 1) None, Child_message 1 (JNum 20)] server_start)) \<le> 1
   \<and> distinct (requests [Request ''/compute'' 1, Request ''/compute'' 2,
            Child_exit 0 (Some 1) None, Child_message 1 (JNum 20)])
   \<and> 0 < length (compute_requests [Request ''/compute'' 1, Request ''/compute'' 2,
            Child_exit 0 (Some 1) None, Child_message 1 (JNum 20)])
   \<and> (\<forall>v. Child_message 0 v \<notin> set [Request ''/compute'' 1, Request ''/compute'' 2,
            Child_exit 0 (Some 1) None, Child_message 1 (JNum 20)])
   \<and> outcomes (compute_requests [Request ''/compute'' 1, Request ''/compute'' 2,
            Child_exit 0 (Some 1) None, Child_message 1 (JNum 20)] ! 0)
        (run [Request ''/compute'' 1, Request ''/compute'' 2,
            Child_exit 0 (Some 1) None, Child_message 1 (JNum 20)] server_start) = []
   \<and> uncaught (run ([Request ''/compute'' 1] @ Request ''/compute'' 2
            # [Child_exit 0 (Some 1) None]) server_start) = None
   \<and> 2 \<notin> set (requests ([Request ''/compute'' 1] @ [Child_exit 0 (Some 1) None]))
   \<and> (\<forall>v'. Child_message (length (compute_requests [Request ''/compute'' 1])) v'
          \<notin> set ([Request ''/compute'' 1] @ [Child_exit 0 (Some 1) None]))
   \<and> outcomes 2 (run ([Request ''/compute'' 1] @ Request ''/compute'' 2
            # [Child_exit 0 (Some 1) None]
            @ Child_message (length (compute_requests [Request ''/compute'' 1])) (JNum 20)
            # [Child_message 1 (JNum 21)]) server_start) = [Sum_is (JNum 20)]"
  using session_outcomes [where r = 2 and c = 0 and r' = 2 and v = "JNum 20"
      and evs = "[Request ''/compute'' 1, Request ''/compute'' 2,
            Child_exit 0 (Some 1) None, Child_message 1 (JNum 20)]"
      and pre = "[Request ''/compute'' 1]" and mid = "[Child_exit 0 (Some 1) None]"
      and post = "[Child_message 1 (JNum 21)]"]
  by (simp add: server_defs)

text \<open>
  Claim C1 as stated fails: a worker that exits with code 1 and signal \<^verbatim>\<open>null\<close> without
  sending a result leaves its caller with no outcome at all. The handler registers no
  \<^verbatim>\<open>'exit'\<close> listener.
\<close>

theorem exit_delivers_nothing:
  "ended (run [Request ''/compute'' 0, Child_exit 0 (Some 1) None] server_start) = []"
  by (simp add: server_defs)




lemma handle_compute_request:
  "on_request ''/compute'' r s = s\<lparr>children := children s @ [session_of r]\<rparr>"
  by (simp add: on_request_def fork_def child_send_def child_on_def session_of_def
      nth_append list_update_append)

lemma run_requests:
  "uncaught s = None \<Longrightarrow>
     run (map (Request ''/compute'') rs) s = s\<lparr>children := children s @ map session_of rs\<rparr>"
proof (induction rs arbitrary: s)
  case Nil
  show ?case by (simp add: run_def)
next
  case (Cons r rs)
  let ?s = "s\<lparr>children := children s @ [session_of r]\<rparr>"
  have "run (map (Request ''/compute'') (r # rs)) s = run (map (Request ''/compute'') rs) ?s"
    using Cons.prems by (simp add: run_def server_step_def handle_compute_request)
  also have "\<dots> = ?s\<lparr>children := children ?s @ map session_of rs\<rparr>"
    using Cons.prems by (intro Cons.IH) simp
  finally show ?case
    by simp
qed

lemma run_results:
  assumes "distinct rs"
  shows "children t = map session_of rs \<Longrightarrow> uncaught t = None \<Longrightarrow>
     ended t = map (\<lambda>c. (rs ! c, Sum_is (v c))) done \<Longrightarrow>
     distinct (done @ cs) \<Longrightarrow> set (done @ cs) \<subseteq> {..<length rs} \<Longrightarrow>
     run (map (\<lambda>c. Child_message c (v c)) cs) t
       = t\<lparr>ended := map (\<lambda>c. (rs ! c, Sum_is (v c))) (done @ cs)\<rparr>"
proof (induction cs arbitrary: t "done")
  case Nil
  then show ?case by (simp add: run_def)
next
  case (Cons c cs)
  have c: "c < length rs"
    using Cons.prems(5) by simp
  have "rs ! c \<notin> (\<lambda>c'. rs ! c') ` set done"
  proof
    assume "rs ! c \<in> (\<lambda>c'. rs ! c') ` set done"
    then obtain c' where c': "c' \<in> set done" and eq: "rs ! c = rs ! c'"
      by blast
    have "c' < length rs"
      using c' Cons.prems(5) by auto
    then have "c = c'"
      using eq c assms by (simp add: nth_eq_iff_index_eq)
    then show False
      using c' Cons.prems(4) by simp
  qed
  then have fresh: "rs ! c \<notin> set (map fst (ended t))"
    by (simp add: Cons.prems(3) image_image)
  let ?t = "t\<lparr>ended := ended t @ [(rs ! c, Sum_is (v c))]\<rparr>"
  have "handle (Child_message c (v c)) t = ?t"
    using c fresh Cons.prems(1) by (simp add: emit_def session_of_def res_end_def)
  then have "run (map (\<lambda>c. Child_message c (v c)) (c # cs)) t
      = run (map (\<lambda>c. Child_message c (v c)) cs) ?t"
    using Cons.prems(2) by (simp add: run_def server_step_def)
  also have "\<dots> = ?t\<lparr>ended := map (\<lambda>c. (rs ! c, Sum_is (v c))) ((done @ [c]) @ cs)\<rparr>"
    using Cons.prems by (intro Cons.IH) simp_all
  finally show ?case
    by simp
qed

text \<open>
  Claim C6, as amended. The program keeps no registry. What a session has in the parent
  is its forked worker, the child process with the \<^verbatim>\<open>'message'\<close> listener on it, made by
  the request handler in one step with the fork. Delivering a result ends no worker and
  removes no listener: after \<open>N\<close> concurrent sessions are created and each has had its
  result delivered, in any order, every caller has its own result and the parent still
  holds all \<open>N\<close> workers, each with its listener registered.
\<close>

theorem workers_remain_after_results:
  "distinct rs \<Longrightarrow> distinct cs \<Longrightarrow> set cs = {..<length rs} \<Longrightarrow>
     run (map (Request ''/compute'') rs @ map (\<lambda>c. Child_message c (v c)) cs) server_start
       = \<lparr>children = map session_of rs,
          ended = map (\<lambda>c. (rs ! c, Sum_is (v c))) cs,
          uncaught = None\<rparr>"
proof -
  assume rs: "distinct rs" and cs: "distinct cs" "set cs = {..<length rs}"
  let ?t = "run (map (Request ''/compute'') rs) server_start"
  have t: "?t = \<lparr>children = map session_of rs, ended = [], uncaught = None\<rparr>"
    using run_requests [of server_start rs] by (simp add: server_start_def)
  have "run (map (\<lambda>c. Child_message c (v c)) cs) ?t
      = ?t\<lparr>ended := map (\<lambda>c. (rs ! c, Sum_is (v c))) ([] @ cs)\<rparr>"
    using rs cs by (intro run_results) (simp_all add: t)
  then show ?thesis
    by (simp add: run_append t)
qed

theorem workers_remain_after_results_witness:
  "distinct [5, 7 :: nat] \<and> distinct [1, 0 :: nat] \<and> set [1, 0 :: nat] = {..<length [5, 7 :: nat]}
   \<and> run (map (Request ''/compute'') [5, 7] @ map (\<lambda>c. Child_message c (JNum (c + 10))) [1, 0])
        server_start
       = \<lparr>children = map session_of [5, 7],
          ended = map (\<lambda>c. ([5, 7] ! c, Sum_is (JNum (c + 10)))) [1, 0],
          uncaught = None\<rparr>"
proof -
  have s: "set [1, 0 :: nat] = {..<length [5, 7 :: nat]}"
    by auto
  show ?thesis
    using s workers_remain_after_results [of "[5, 7]" "[1, 0]" "\<lambda>c. JNum (c + 10)"]
    by simp
qed

text \<open>
  Claim C6 as stated fails: after one session is created and its result delivered, its
  entry is still there.
\<close>

theorem child_remains_after_result:
  "ended (run [Request ''/compute'' 0, Child_message 0 (JNum 42)] server_start)
     = [(0, Sum_is (JNum 42))]
   \<and> children (run [Request ''/compute'' 0, Child_message 0 (JNum 42)] server_start) \<noteq> []"
  by (simp add: server_defs)

end
